theory Spec2Isabelle
  imports Complex_Main "HOL-Library.Log_Nat"
begin

section \<open>The line reader of the handbrake backend\<close>

text \<open>
  \<open>iterLines\<close> (handbrake/handbrake.go) reads its \<open>io.Reader\<close> one byte at a time.
  One call of \<open>reader.Read(buf)\<close> with the one-byte buffer returns the number of bytes
  read, the byte stored in \<open>buf[0]\<close> and an error. A reader is the sequence of the
  results of its successive calls.
\<close>

datatype io_error = EOF | ErrOther

datatype read_result = ReadResult nat char "io_error option"

type_synonym reader = "nat \<Rightarrow> read_result"

definition is_line_ending :: "char \<Rightarrow> bool" where
  "is_line_ending c = (c = CHR 0x0D \<or> c = CHR 0x0A)"

text \<open>
  The \<open>for\<close> loop of \<open>iterLines\<close>: \<open>i\<close> counts the calls of \<open>Read\<close> made so far,
  \<open>currentLine\<close> is the builder, \<open>yielded\<close> the lines handed to \<open>yield\<close> so far. The
  consumer in \<open>Encode\<close> ranges over the whole sequence and never breaks, so \<open>yield\<close>
  always returns true. The loop ends only at the first error of the reader; on a reader
  that never fails it does not return, which is the value \<open>None\<close>.
\<close>

partial_function (option) iterLines_loop ::
  "reader \<Rightarrow> nat \<Rightarrow> string \<Rightarrow> string list \<Rightarrow> string list option" where
  "iterLines_loop rd i currentLine yielded =
     (case rd i of ReadResult n c e \<Rightarrow>
        (case e of
           Some er \<Rightarrow>
             (if er = EOF \<and> currentLine \<noteq> [] then Some (yielded @ [currentLine])
              else Some yielded)
         | None \<Rightarrow>
             (if n > 0 then
                (if is_line_ending c then
                   (if currentLine \<noteq> [] then iterLines_loop rd (i + 1) [] (yielded @ [currentLine])
                    else iterLines_loop rd (i + 1) currentLine yielded)
                 else iterLines_loop rd (i + 1) (currentLine @ [c]) yielded)
              else iterLines_loop rd (i + 1) currentLine yielded)))"

definition iterLines :: "reader \<Rightarrow> string list option" where
  "iterLines rd = iterLines_loop rd 0 [] []"

text \<open>
  The reader of a byte stream, as the pipe of the subprocess behaves: every call
  delivers the next byte, and at the end of the stream every call returns \<open>(0, io.EOF)\<close>.
\<close>

definition stream_reader :: "string \<Rightarrow> reader" where
  "stream_reader bs i =
     (if i < length bs then ReadResult 1 (bs ! i) None else ReadResult 0 (CHR 0x00) (Some EOF))"

text \<open>
  Splitting a string on every character that satisfies \<open>P\<close>: the segments between the
  separators, empty ones included (\<open>n\<close> separators give \<open>n + 1\<close> segments).
\<close>

fun push_char :: "char \<Rightarrow> string list \<Rightarrow> string list" where
  "push_char c [] = [[c]]"
| "push_char c (s # ss) = (c # s) # ss"

fun split_on :: "(char \<Rightarrow> bool) \<Rightarrow> string \<Rightarrow> string list" where
  "split_on P [] = [[]]"
| "split_on P (c # cs) = (if P c then [] # split_on P cs else push_char c (split_on P cs))"

definition nonempty_segments :: "string \<Rightarrow> string list" where
  "nonempty_segments bs = filter (\<lambda>s. s \<noteq> []) (split_on is_line_ending bs)"

fun prepend_line :: "string \<Rightarrow> string list \<Rightarrow> string list" where
  "prepend_line cur [] = [cur]"
| "prepend_line cur (s # ss) = (cur @ s) # ss"

section \<open>Properties of the line reader\<close>

lemma push_char_not_Nil: "push_char c ss \<noteq> []"
  by (cases ss) simp_all

lemma split_on_not_Nil: "split_on P cs \<noteq> []"
  by (induction cs) (simp_all add: push_char_not_Nil)

lemma prepend_line_push_char:
  "ss \<noteq> [] \<Longrightarrow> prepend_line cur (push_char c ss) = prepend_line (cur @ [c]) ss"
  by (cases ss) auto

lemma prepend_line_Nil: "ss \<noteq> [] \<Longrightarrow> prepend_line [] ss = ss"
  by (cases ss) simp_all

lemma iterLines_loop_stream:
  "i \<le> length bs \<Longrightarrow>
   iterLines_loop (stream_reader bs) i cur ys =
     Some (ys @ filter (\<lambda>s. s \<noteq> []) (prepend_line cur (split_on is_line_ending (drop i bs))))"
proof (induction "length bs - i" arbitrary: i cur ys)
  case 0
  then have "i = length bs" by simp
  then show ?case
    by (subst iterLines_loop.simps) (simp add: stream_reader_def)
next
  case (Suc k)
  then have lt: "i < length bs" and k: "k = length bs - (i + 1)" and le: "i + 1 \<le> length bs"
    by simp_all
  have dr: "drop i bs = bs ! i # drop (i + 1) bs"
    using lt by (simp add: Cons_nth_drop_Suc)
  note IH = Suc.hyps(1) [OF k le]
  show ?case
  proof (cases "is_line_ending (bs ! i)")
    case True
    show ?thesis
    proof (cases "cur = []")
      case True
      with \<open>is_line_ending (bs ! i)\<close> show ?thesis
        using lt dr IH [of "[]" ys]
        by (subst iterLines_loop.simps)
          (simp add: stream_reader_def prepend_line_Nil split_on_not_Nil)
    next
      case False
      with \<open>is_line_ending (bs ! i)\<close> show ?thesis
        using lt dr IH [of "[]" "ys @ [cur]"]
        by (subst iterLines_loop.simps)
          (simp add: stream_reader_def prepend_line_Nil split_on_not_Nil)
    qed
  next
    case False
    then show ?thesis
      using lt dr IH [of "cur @ [bs ! i]" ys]
      by (subst iterLines_loop.simps)
        (simp add: stream_reader_def prepend_line_push_char split_on_not_Nil)
  qed
qed

text \<open>
  C2. For every byte stream, \<open>iterLines\<close> returns, and the lines it yields are exactly
  the non-empty segments obtained by splitting the bytes of the stream on every carriage
  return and line feed, whichever of the two terminators the stream uses; a non-empty
  partial line at the end of the stream is the last segment, so it is yielded last.
\<close>

theorem iterLines_splits_on_line_endings:
  "iterLines (stream_reader bs) = Some (nonempty_segments bs)"
proof -
  have "prepend_line [] (split_on is_line_ending bs) = split_on is_line_ending bs"
    by (simp add: prepend_line_Nil split_on_not_Nil)
  then show ?thesis
    using iterLines_loop_stream [of 0 bs "[]" "[]"]
    by (simp add: iterLines_def nonempty_segments_def)
qed

section \<open>Go's \<open>float64\<close> arithmetic\<close>

text \<open>
  The progress code computes with \<open>float64\<close>. A value is a NaN, an infinity with its
  sign, or a finite number: a sign bit (\<open>True\<close> for negative, so that \<open>-0\<close> is
  \<open>Finite True 0\<close>) and a magnitude, a non-negative rational \<open>m * 2 ^ e\<close> with
  \<open>m < 2 ^ 53\<close> and \<open>- 1074 \<le> e\<close>, below \<open>2 ^ 1024\<close>.

  Every arithmetic operation returns the exact result rounded to the nearest such
  value, ties to even (IEEE 754 binary64, the only rounding mode of Go):
  \<open>round64 s x\<close> rounds the magnitude \<open>x\<close> with the sign \<open>s\<close>. The spacing of the
  values around \<open>x\<close> is \<open>ulp x\<close>, and a rounded magnitude of \<open>2 ^ 1024\<close> or more is an
  overflow to infinity.
\<close>

datatype float64 = Finite bool rat | Infinity bool | NaN

definition ilog2 :: "rat \<Rightarrow> int" where
  "ilog2 x = (case quotient_of x of (n, d) \<Rightarrow>
     (let c = bitlen n - bitlen d in if 2 powi c \<le> x then c else c - 1))"

definition round_even :: "rat \<Rightarrow> int" where
  "round_even x = (let f = \<lfloor>x\<rfloor>; r = x - of_int f in
     if r < 1 / 2 then f else if 1 / 2 < r then f + 1 else if even f then f else f + 1)"

definition ulp :: "rat \<Rightarrow> rat" where
  "ulp x = 2 powi (max (- 1074) (ilog2 x - 52))"

definition overflow_threshold :: rat where
  "overflow_threshold = 2 ^ 1024"

definition round64 :: "bool \<Rightarrow> rat \<Rightarrow> float64" where
  "round64 s x = (if x = 0 then Finite s 0 else
     (let q = ulp x; y = of_int (round_even (x / q)) * q in
      if overflow_threshold \<le> y then Infinity s else Finite s y))"

text \<open>
  Multiplication and division (\<open>*\<close> and \<open>/\<close> on \<open>float64\<close>): the sign of the result
  is the exclusive or of the signs; \<open>0 * \<infinity>\<close>, \<open>0 / 0\<close> and \<open>\<infinity> / \<infinity>\<close> are NaN; a
  non-zero number divided by zero is an infinity.
\<close>

fun fmul :: "float64 \<Rightarrow> float64 \<Rightarrow> float64" where
  "fmul (Finite s x) (Finite t y) = round64 (s \<noteq> t) (x * y)"
| "fmul (Finite s x) (Infinity t) = (if x = 0 then NaN else Infinity (s \<noteq> t))"
| "fmul (Infinity s) (Finite t y) = (if y = 0 then NaN else Infinity (s \<noteq> t))"
| "fmul (Infinity s) (Infinity t) = Infinity (s \<noteq> t)"
| "fmul NaN _ = NaN"
| "fmul _ NaN = NaN"

fun fdiv :: "float64 \<Rightarrow> float64 \<Rightarrow> float64" where
  "fdiv (Finite s x) (Finite t y) =
     (if y = 0 then (if x = 0 then NaN else Infinity (s \<noteq> t)) else round64 (s \<noteq> t) (x / y))"
| "fdiv (Finite s x) (Infinity t) = Finite (s \<noteq> t) 0"
| "fdiv (Infinity s) (Finite t y) = Infinity (s \<noteq> t)"
| "fdiv (Infinity s) (Infinity t) = NaN"
| "fdiv NaN _ = NaN"
| "fdiv _ NaN = NaN"

text \<open>
  \<open>math.Round\<close> returns the nearest integer, rounding half away from zero, and keeps
  the sign, the infinities and NaN. (A magnitude of \<open>2 ^ 52\<close> or more is an integer
  already.)
\<close>

fun math_Round :: "float64 \<Rightarrow> float64" where
  "math_Round (Finite s x) = Finite s (of_int \<lfloor>x + 1 / 2\<rfloor>)"
| "math_Round (Infinity s) = Infinity s"
| "math_Round NaN = NaN"

text \<open>
  \<open>math.Pow(10, float64(n))\<close> for an \<open>int\<close> \<open>n\<close>, by its contract: the power of ten as a
  \<open>float64\<close>, \<open>+Inf\<close> on overflow and \<open>0\<close> on underflow. For \<open>\<bar>n\<bar> \<le> 22\<close> this is the
  library's result (the powers up to \<open>10 ^ 22\<close> are exact, and their inverses are one
  correctly rounded division). For larger \<open>\<bar>n\<bar>\<close> the library multiplies rounded
  squares, and its result can differ from the correctly rounded power by a unit in the
  last place; what is proved below either takes \<open>\<bar>n\<bar> \<le> 22\<close> or holds for any value of
  the power.
\<close>

definition math_Pow10 :: "int \<Rightarrow> float64" where
  "math_Pow10 n = round64 False (10 powi n)"

text \<open>The conversion \<open>float64(i)\<close> of an integer.\<close>

definition of_int64 :: "int \<Rightarrow> float64" where
  "of_int64 i = round64 (i < 0) (of_int \<bar>i\<bar>)"

text \<open>The comparisons \<open>==\<close> and \<open><\<close> of Go: the two zeros are equal, NaN compares false.\<close>

definition signed :: "bool \<Rightarrow> rat \<Rightarrow> rat" where
  "signed s x = (if s then - x else x)"

fun feq :: "float64 \<Rightarrow> float64 \<Rightarrow> bool" where
  "feq (Finite s x) (Finite t y) = (signed s x = signed t y)"
| "feq (Infinity s) (Infinity t) = (s = t)"
| "feq _ _ = False"

fun flt :: "float64 \<Rightarrow> float64 \<Rightarrow> bool" where
  "flt (Finite s x) (Finite t y) = (signed s x < signed t y)"
| "flt (Finite s x) (Infinity t) = (\<not> t)"
| "flt (Infinity s) (Finite t y) = s"
| "flt (Infinity s) (Infinity t) = (s \<and> \<not> t)"
| "flt _ _ = False"

subsection \<open>Properties of the rounding\<close>

lemma bitlen_pos: "0 < n \<Longrightarrow> 1 \<le> bitlen n"
  by (simp add: bitlen_alt_def)

lemma ilog2_bounds:
  assumes "0 < x"
  shows "2 powi ilog2 x \<le> x" and "x < 2 powi (ilog2 x + 1)"
proof -
  obtain n d where q: "quotient_of x = (n, d)" by force
  have d: "0 < d" using quotient_of_denom_pos [OF q] .
  have x: "x = of_int n / of_int d" using quotient_of_div [OF q] .
  have n: "0 < n" using assms d by (simp add: x zero_less_divide_iff)
  define bn bd where "bn = nat (bitlen n - 1)" and "bd = nat (bitlen d - 1)"
  have bln: "bitlen n = int bn + 1" and bld: "bitlen d = int bd + 1"
    using bitlen_pos [OF n] bitlen_pos [OF d] by (simp_all add: bn_def bd_def)
  have n1: "2 ^ bn \<le> n" and n2: "n < 2 ^ (bn + 1)"
    using bitlen_bounds [OF n] by (simp_all add: bln nat_add_distrib)
  have d1: "2 ^ bd \<le> d" and d2: "d < 2 ^ (bd + 1)"
    using bitlen_bounds [OF d] by (simp_all add: bld nat_add_distrib)
  have "rat_of_int n < rat_of_int (2 ^ (bn + 1))" using n2 by (simp only: of_int_less_iff)
  then have rn2: "(of_int n :: rat) < 2 ^ (bn + 1)" by simp
  have rn1: "(2::rat) ^ bn \<le> of_int n" using n1 by simp
  have "rat_of_int d < rat_of_int (2 ^ (bd + 1))" using d2 by (simp only: of_int_less_iff)
  then have rd2: "(of_int d :: rat) < 2 ^ (bd + 1)" by simp
  have rd1: "(2::rat) ^ bd \<le> of_int d" using d1 by simp
  define c where "c = int bn - int bd"
  have c: "bitlen n - bitlen d = c" by (simp add: bln bld c_def)
  have rd: "(0::rat) < of_int d" using d by simp
  have up: "x < 2 powi (c + 1)"
  proof -
    have "x < 2 ^ (bn + 1) / 2 ^ bd"
      unfolding x using n by (intro frac_less rn2 rd1) simp_all
    also have "\<dots> = 2 powi (c + 1)"
      by (simp add: c_def power_int_diff power_int_add)
    finally show ?thesis .
  qed
  have lo: "2 powi (c - 1) \<le> x"
  proof -
    have "2 powi (c - 1) = (2::rat) ^ bn / 2 ^ (bd + 1)"
      by (simp add: c_def power_int_diff power_int_add)
    also have "\<dots> \<le> x"
      unfolding x using n rd rd2 by (intro frac_le rn1) simp_all
    finally show ?thesis .
  qed
  have il: "ilog2 x = (if 2 powi c \<le> x then c else c - 1)"
    by (simp add: ilog2_def q c Let_def)
  show "2 powi ilog2 x \<le> x" using lo by (simp add: il)
  show "x < 2 powi (ilog2 x + 1)" using up by (simp add: il not_le)
qed


lemma powi2_less_cancel: "(2::rat) powi a < 2 powi b \<Longrightarrow> a < b"
proof (rule ccontr)
  assume l: "(2::rat) powi a < 2 powi b" and "\<not> a < b"
  then have "b \<le> a" by simp
  then have "(2::rat) powi b \<le> 2 powi a" by (rule power_int_increasing) simp
  with l show False by simp
qed

lemma powi2_pos: "(0::rat) < 2 powi a"
  by (rule zero_less_power_int) simp

lemma ilog2_unique:
  assumes "2 powi k \<le> x" and "x < 2 powi (k + 1)"
  shows "ilog2 x = k"
proof -
  have x: "0 < x" using powi2_pos assms(1) by (rule less_le_trans)
  have "(2::rat) powi k < 2 powi (ilog2 x + 1)"
    using assms(1) ilog2_bounds(2) [OF x] by simp
  then have a: "k < ilog2 x + 1" by (rule powi2_less_cancel)
  have "(2::rat) powi ilog2 x < 2 powi (k + 1)"
    using assms(2) ilog2_bounds(1) [OF x] by simp
  then have "ilog2 x < k + 1" by (rule powi2_less_cancel)
  with a show ?thesis by simp
qed

lemma ilog2_mono:
  assumes "0 < x" and "x \<le> y"
  shows "ilog2 x \<le> ilog2 y"
proof -
  have y: "0 < y" using assms by simp
  have "(2::rat) powi ilog2 x < 2 powi (ilog2 y + 1)"
    using ilog2_bounds(1) [OF assms(1)] ilog2_bounds(2) [OF y] assms(2) by simp
  then have "ilog2 x < ilog2 y + 1" by (rule powi2_less_cancel)
  then show ?thesis by simp
qed

lemma ilog2_less:
  assumes "0 < x" and "x < 2 powi k"
  shows "ilog2 x < k"
proof -
  have "(2::rat) powi ilog2 x < 2 powi k"
    using ilog2_bounds(1) [OF assms(1)] assms(2) by simp
  then show ?thesis by (rule powi2_less_cancel)
qed

lemma round_even_of_int [simp]: "round_even (of_int k) = k"
  by (simp add: round_even_def)

lemma round_even_ge_floor: "\<lfloor>x\<rfloor> \<le> round_even x"
  by (simp add: round_even_def Let_def)

lemma round_even_le_floor: "round_even x \<le> \<lfloor>x\<rfloor> + 1"
  by (simp add: round_even_def Let_def)

lemma round_even_le:
  assumes "x \<le> of_int k"
  shows "round_even x \<le> k"
proof (cases "x = of_int k")
  case True
  then show ?thesis by simp
next
  case False
  with assms have "x < of_int k" by simp
  then have "\<lfloor>x\<rfloor> < k" by (simp add: floor_less_iff)
  with round_even_le_floor [of x] show ?thesis by simp
qed

lemma round_even_ge:
  assumes "of_int k \<le> x"
  shows "k \<le> round_even x"
proof -
  have "k \<le> \<lfloor>x\<rfloor>" using assms by (simp add: le_floor_iff)
  with round_even_ge_floor [of x] show ?thesis by simp
qed

lemma round_even_err: "\<bar>of_int (round_even x) - x\<bar> \<le> 1 / 2"
proof -
  have "of_int \<lfloor>x\<rfloor> \<le> x" and "x < of_int \<lfloor>x\<rfloor> + 1" by linarith+
  then show ?thesis
    by (auto simp add: round_even_def Let_def abs_le_iff)
qed

lemma ulp_pos: "0 < ulp x"
  by (simp add: ulp_def powi2_pos)

lemma round64_not_NaN: "round64 s x \<noteq> NaN"
  by (simp add: round64_def Let_def)

lemma round64_grid:
  assumes x: "0 < x" and xB: "x \<le> of_int m * 2 powi e" and m: "m < 2 ^ 53" and e: "- 1074 \<le> e"
  shows "\<exists>j. of_int m * 2 powi e = of_int (m * 2 ^ j) * ulp x"
proof -
  let ?B = "of_int m * (2::rat) powi e"
  have B: "0 < ?B" using x xB by simp
  have "rat_of_int m < rat_of_int (2 ^ 53)" using m by (simp only: of_int_less_iff)
  then have "?B < 2 ^ 53 * 2 powi e"
    by (simp add: powi2_pos)
  also have "\<dots> = 2 powi (e + 53)"
    by (simp add: power_int_add)
  finally have "ilog2 ?B < e + 53" using B by (intro ilog2_less)
  moreover have "ilog2 x \<le> ilog2 ?B" using x xB by (rule ilog2_mono)
  ultimately have le: "max (- 1074) (ilog2 x - 52) \<le> e" using e by simp
  define E where "E = max (- 1074) (ilog2 x - 52)"
  define j where "j = nat (e - E)"
  have "e = E + int j" using le by (simp add: j_def E_def)
  then have "(2::rat) powi e = 2 ^ j * 2 powi E"
    by (simp add: power_int_add)
  then have "?B = of_int (m * 2 ^ j) * ulp x"
    by (simp add: ulp_def E_def)
  then show ?thesis ..
qed

lemma round64_le:
  assumes x: "0 \<le> x" and xB: "x \<le> of_int m * 2 powi e" and m: "m < 2 ^ 53" and e: "- 1074 \<le> e"
    and B: "of_int m * 2 powi e < overflow_threshold"
  shows "\<exists>y. round64 s x = Finite s y \<and> 0 \<le> y \<and> y \<le> of_int m * 2 powi e"
proof (cases "x = 0")
  case True
  with x xB show ?thesis by (simp add: round64_def)
next
  case False
  with x have x0: "0 < x" by simp
  obtain j where j: "of_int m * 2 powi e = of_int (m * 2 ^ j) * ulp x"
    using round64_grid [OF x0 xB m e] ..
  have "x / ulp x \<le> of_int (m * 2 ^ j)"
    using xB ulp_pos [of x] by (simp add: j pos_divide_le_eq)
  then have "round_even (x / ulp x) \<le> m * 2 ^ j" by (rule round_even_le)
  then have "rat_of_int (round_even (x / ulp x)) \<le> rat_of_int (m * 2 ^ j)"
    by (simp only: of_int_le_iff)
  then have le: "of_int (round_even (x / ulp x)) * ulp x \<le> of_int m * 2 powi e"
    using ulp_pos [of x] by (simp only: j mult_le_cancel_right_pos)
  have "0 \<le> x / ulp x" using x0 ulp_pos [of x] by simp
  then have "rat_of_int 0 \<le> x / ulp x" by simp
  then have "0 \<le> round_even (x / ulp x)" by (rule round_even_ge)
  then have ge: "0 \<le> of_int (round_even (x / ulp x)) * ulp x"
    using ulp_pos [of x] by simp
  show ?thesis
    using False le ge B by (simp add: round64_def Let_def)
qed

lemma round64_ge:
  assumes x: "of_int m * 2 powi e \<le> x" and m0: "0 < m" and m: "m < 2 ^ 53" and e: "- 1074 \<le> e"
  shows "round64 s x = Infinity s \<or> (\<exists>y. round64 s x = Finite s y \<and> of_int m * 2 powi e \<le> y)"
proof -
  let ?B = "of_int m * (2::rat) powi e"
  have B0: "0 < ?B" using m0 by (simp add: powi2_pos)
  then have x0: "0 < x" using x by simp
  have "rat_of_int m < rat_of_int (2 ^ 53)" using m by (simp only: of_int_less_iff)
  then have "?B < 2 ^ 53 * 2 powi e"
    by (simp add: powi2_pos)
  also have "\<dots> = 2 powi (e + 53)"
    by (simp add: power_int_add)
  finally have Blt: "?B < 2 powi (e + 53)" .
  then have "ilog2 ?B < e + 53" using B0 by (intro ilog2_less)
  then have le: "max (- 1074) (ilog2 ?B - 52) \<le> e" using e by simp
  define E where "E = max (- 1074) (ilog2 ?B - 52)"
  define E' where "E' = max (- 1074) (ilog2 x - 52)"
  have EE: "E \<le> E'" using ilog2_mono [OF B0 x] by (simp add: E_def E'_def)
  define k where "k = round_even (x / ulp x)"
  have ux: "ulp x = 2 powi E'" by (simp add: ulp_def E'_def)
  show ?thesis
  proof (cases "E' \<le> e")
    case True
    define j where "j = nat (e - E')"
    have "e = E' + int j" using True by (simp add: j_def)
    then have "(2::rat) powi e = 2 ^ j * 2 powi E'"
      by (simp add: power_int_add)
    then have j: "?B = of_int (m * 2 ^ j) * ulp x"
      by (simp add: ux)
    have "of_int (m * 2 ^ j) \<le> x / ulp x"
      using x ulp_pos [of x] by (simp add: j pos_le_divide_eq)
    then have "m * 2 ^ j \<le> k" unfolding k_def by (rule round_even_ge)
    then have "rat_of_int (m * 2 ^ j) \<le> rat_of_int k"
      by (simp only: of_int_le_iff)
    then have "?B \<le> of_int k * ulp x"
      using ulp_pos [of x] by (simp only: j mult_le_cancel_right_pos)
    then show ?thesis
      using x0 by (simp add: round64_def Let_def k_def)
  next
    case False
    then have lt: "e < E'" by simp
    then have E': "E' = ilog2 x - 52" using e by (simp add: E'_def)
    have "2 powi (E' + 52) \<le> x" using ilog2_bounds(1) [OF x0] by (simp add: E')
    then have "2 ^ 52 * 2 powi E' \<le> x" by (simp add: power_int_add mult.commute)
    then have "rat_of_int (2 ^ 52) \<le> x / ulp x"
      using powi2_pos [of E'] by (simp add: ux pos_le_divide_eq)
    then have "2 ^ 52 \<le> k" unfolding k_def by (rule round_even_ge)
    then have "rat_of_int (2 ^ 52) \<le> rat_of_int k" by (simp only: of_int_le_iff)
    then have "2 ^ 52 * 2 powi E' \<le> of_int k * ulp x"
      using powi2_pos [of E'] by (simp add: ux)
    moreover have "?B \<le> 2 ^ 52 * 2 powi E'"
    proof -
      have "E + 1 \<le> E'" using lt le EE e by (simp add: E_def E'_def)
      have "?B < 2 powi (e + 53)" by (rule Blt)
      also have "\<dots> \<le> 2 powi (E' + 52)"
        using lt by (intro power_int_increasing) simp_all
      also have "\<dots> = 2 ^ 52 * 2 powi E'" by (simp add: power_int_add mult.commute)
      finally show ?thesis by simp
    qed
    ultimately have "?B \<le> of_int k * ulp x" by simp
    then show ?thesis
      using x0 by (simp add: round64_def Let_def k_def)
  qed
qed

lemma round64_exact:
  assumes m0: "0 \<le> m" and m: "m < 2 ^ 53" and e: "- 1074 \<le> e"
    and B: "of_int m * 2 powi e < overflow_threshold"
  shows "round64 s (of_int m * 2 powi e) = Finite s (of_int m * 2 powi e)"
proof (cases "m = 0")
  case True
  then show ?thesis by (simp add: round64_def)
next
  case False
  with m0 have m1: "0 < m" by simp
  let ?B = "of_int m * (2::rat) powi e"
  obtain y where y: "round64 s ?B = Finite s y" "y \<le> ?B"
    using round64_le [OF _ order_refl m e B, of s] m0 by (auto simp: powi2_pos)
  from round64_ge [OF order_refl m1 m e, of s] y have "?B \<le> y" by auto
  with y show ?thesis by simp
qed

lemma powi_neg_numeral: "(x::rat) powi (- numeral n) = 1 / x ^ numeral n"
  by (simp add: power_int_minus_divide)

lemma round64_0 [simp]: "round64 s 0 = Finite s 0"
  by (simp add: round64_def)

lemma round_even_eqI:
  assumes "of_int m - 1 / 2 < x" and "x < of_int m + 1 / 2"
  shows "round_even x = m"
proof (cases "of_int m \<le> x")
  case True
  with assms have "\<lfloor>x\<rfloor> = m" by (intro floor_unique) simp_all
  with assms show ?thesis by (simp add: round_even_def Let_def)
next
  case False
  with assms have "\<lfloor>x\<rfloor> = m - 1" by (intro floor_unique) simp_all
  with assms show ?thesis by (simp add: round_even_def Let_def)
qed

lemma round64_eqI:
  assumes "2 powi k \<le> x" and "x < 2 powi (k + 1)" and "E = max (- 1074) (k - 52)"
    and "of_int m - 1 / 2 < x / 2 powi E" and "x / 2 powi E < of_int m + 1 / 2"
    and "of_int m * 2 powi E < overflow_threshold"
  shows "round64 s x = Finite s (of_int m * 2 powi E)"
proof -
  have x: "0 < x" using powi2_pos assms(1) by (rule less_le_trans)
  have "ilog2 x = k" using assms(1,2) by (rule ilog2_unique)
  then have u: "ulp x = 2 powi E" by (simp add: ulp_def assms(3))
  have "round_even (x / 2 powi E) = m" using assms(4,5) by (rule round_even_eqI)
  then show ?thesis using x u assms(6) by (simp add: round64_def Let_def)
qed

lemma math_Round_eqI:
  assumes "of_int k \<le> x + 1 / 2" and "x + 1 / 2 < of_int k + 1"
  shows "math_Round (Finite s x) = Finite s (of_int k)"
  using floor_unique [OF assms] by simp

lemma round64_exactI:
  assumes "x = of_int m * 2 powi e" and "0 \<le> m" and "m < 2 ^ 53" and "- 1074 \<le> e"
    and "x < overflow_threshold"
  shows "round64 s x = Finite s x"
  using round64_exact [of m e s] assms by simp

lemma round64_int:
  assumes "0 \<le> k" and "k < 2 ^ 53"
  shows "round64 s (of_int k) = Finite s (of_int k)"
  by (rule round64_exactI [where m = k and e = 0])
    (use assms in \<open>simp_all add: overflow_threshold_def\<close>)

lemma round64_numeral:
  "(numeral n :: int) < 2 ^ 53 \<Longrightarrow> round64 s (numeral n) = Finite s (numeral n)"
  using round64_int [of "numeral n" s] by simp

section \<open>Progress snapshots and the rounding helpers\<close>

text \<open>
  \<open>EncodeProgress\<close> is declared with the same fields in both packages; \<open>ETA\<close> is a
  \<open>time.Duration\<close> (nanoseconds) and \<open>CurrentSize\<close> an \<open>int64\<close>.
\<close>

record EncodeProgress =
  Percent :: float64
  FPSAvg :: float64
  ETA :: int
  CurrentSize :: int

text \<open>\<open>round\<close> of handbrake/handbrake.go.\<close>

definition handbrake_round :: "float64 \<Rightarrow> int \<Rightarrow> float64" where
  "handbrake_round val precision =
     (let factor = math_Pow10 precision in fdiv (math_Round (fmul val factor)) factor)"

text \<open>\<open>round\<close> of the ffmpeg package, with its guard for a negative precision.\<close>

definition ffmpeg_round :: "float64 \<Rightarrow> int \<Rightarrow> float64" where
  "ffmpeg_round n precision =
     (if precision < 0 then n
      else (let pow = math_Pow10 precision in fdiv (math_Round (fmul n pow)) pow))"

text \<open>\<open>EncodedMB\<close> and \<open>EstimatedMB\<close>, the same text in both packages, each calling its own \<open>round\<close>.\<close>

definition EncodedMB :: "EncodeProgress \<Rightarrow> float64" where
  "EncodedMB e = fdiv (of_int64 (CurrentSize e)) (Finite False 1048576)"

definition handbrake_EstimatedMB :: "EncodeProgress \<Rightarrow> float64" where
  "handbrake_EstimatedMB e =
     (if feq (Percent e) (Finite False 0) then Finite False 0
      else (let mb = fdiv (EncodedMB e) (fdiv (Percent e) (Finite False 100))
            in handbrake_round mb 1))"

definition ffmpeg_EstimatedMB :: "EncodeProgress \<Rightarrow> float64" where
  "ffmpeg_EstimatedMB e =
     (if feq (Percent e) (Finite False 0) then Finite False 0
      else (let mb = fdiv (EncodedMB e) (fdiv (Percent e) (Finite False 100))
            in ffmpeg_round mb 1))"

subsection \<open>Values of the helpers\<close>

lemma math_Pow10_1: "math_Pow10 1 = Finite False 10"
  by (simp add: math_Pow10_def round64_numeral)

lemma math_Pow10_2: "math_Pow10 2 = Finite False 100"
  by (simp add: math_Pow10_def round64_numeral)

lemma math_Pow10_minus_1:
  "math_Pow10 (- 1) = Finite False (3602879701896397 / 36028797018963968)"
proof -
  have "round64 False (1 / 10) = Finite False (3602879701896397 / 36028797018963968)"
    by (rule trans [OF round64_eqI [where k = "- 4" and E = "- 56" and m = 7205759403792794]])
      (simp_all add: overflow_threshold_def powi_neg_numeral)
  then show ?thesis by (simp add: math_Pow10_def)
qed

lemma math_Round_small:
  assumes "0 \<le> x" and "x < 1 / 2"
  shows "math_Round (Finite s x) = Finite s 0"
  using math_Round_eqI [of 0 x s] assms by simp

lemma handbrake_round_one_minus_1: "handbrake_round (Finite False 1) (- 1) = Finite False 0"
proof -
  have a: "round64 False (3602879701896397 / 36028797018963968)
      = Finite False (3602879701896397 / 36028797018963968)"
    by (rule round64_exactI [where m = 3602879701896397 and e = "- 55"])
      (simp_all add: overflow_threshold_def powi_neg_numeral)
  have b: "math_Round (Finite False (3602879701896397 / 36028797018963968)) = Finite False 0"
    by (rule math_Round_small) simp_all
  show ?thesis
    by (simp add: handbrake_round_def math_Pow10_minus_1 a b del: math_Round.simps)
qed

subsection \<open>The two rounding helpers compared\<close>

text \<open>
  C10 (as stated: the two helpers compute the same function for every value and every
  precision, negative ones included) fails: for the value 1 and the precision \<open>-1\<close>
  handbrake's helper computes \<open>math.Round(1 * 0.1) / 0.1 = 0\<close>, ffmpeg's returns 1.
\<close>

theorem rounds_differ_at_negative_precision:
  "handbrake_round (Finite False 1) (- 1) \<noteq> ffmpeg_round (Finite False 1) (- 1)"
proof -
  have "ffmpeg_round (Finite False 1) (- 1) = Finite False 1"
    by (simp add: ffmpeg_round_def)
  then show ?thesis
    by (simp add: handbrake_round_one_minus_1)
qed

text \<open>
  C10, amended: for every value and every precision \<open>N \<ge> 0\<close> the two helpers return the
  same result; for \<open>N < 0\<close> ffmpeg's helper returns its argument unchanged, while
  handbrake's still scales by \<open>10 ^ N\<close>, rounds and scales back.
\<close>

theorem rounds_agree_from_precision_zero:
  "(0 \<le> N \<longrightarrow> handbrake_round v N = ffmpeg_round v N) \<and>
   (N < 0 \<longrightarrow> ffmpeg_round v N = v \<and>
      handbrake_round v N = fdiv (math_Round (fmul v (math_Pow10 N))) (math_Pow10 N))"
proof (intro conjI impI)
  assume "0 \<le> N"
  then have "\<not> N < 0" by simp
  then show "handbrake_round v N = ffmpeg_round v N"
    unfolding handbrake_round_def ffmpeg_round_def by (simp only: if_False)
next
  assume "N < 0"
  then show "ffmpeg_round v N = v"
    unfolding ffmpeg_round_def by (simp only: if_True)
next
  show "handbrake_round v N = fdiv (math_Round (fmul v (math_Pow10 N))) (math_Pow10 N)"
    by (simp add: handbrake_round_def Let_def)
qed

theorem rounds_agree_from_precision_zero_witness:
  "handbrake_round (Finite False 1) 2 = ffmpeg_round (Finite False 1) 2 \<and>
   ffmpeg_round (Finite False 1) (- 1) = Finite False 1 \<and>
   handbrake_round (Finite False 1) (- 1) = Finite False 0"
  using rounds_agree_from_precision_zero [of 2 "Finite False 1"]
    rounds_agree_from_precision_zero [of "- 1" "Finite False 1"]
  by (simp add: handbrake_round_one_minus_1)

subsection \<open>The estimated size\<close>

lemma math_Round_of_int: "math_Round (Finite s (of_int k)) = Finite s (of_int k)"
  by (rule math_Round_eqI) simp_all

lemma math_Round_numeral: "math_Round (Finite s (numeral n)) = Finite s (numeral n)"
  using math_Round_of_int [of s "numeral n"] by simp

lemma round64_quarter: "round64 False (1 / 4) = Finite False (1 / 4)"
  by (rule round64_exactI [where m = 1 and e = "- 2"])
    (simp_all add: overflow_threshold_def powi_neg_numeral)

lemma EncodedMB_50:
  "EncodedMB \<lparr>Percent = Finite False 25, FPSAvg = Finite False 0, ETA = 0, CurrentSize = 52428800\<rparr>
     = Finite False 50"
  by (simp add: EncodedMB_def of_int64_def round64_numeral)

lemma handbrake_round_200: "handbrake_round (Finite False 200) 1 = Finite False 200"
  by (simp add: handbrake_round_def math_Pow10_1 round64_numeral math_Round_numeral
      del: math_Round.simps)

lemma ffmpeg_round_200: "ffmpeg_round (Finite False 200) 1 = Finite False 200"
  by (simp add: ffmpeg_round_def math_Pow10_1 round64_numeral math_Round_numeral
      del: math_Round.simps)

text \<open>
  The one-decimal value nearest to a non-negative rational \<open>q\<close>, counted in tenths
  (half a tenth rounds up): what "\<open>q\<close> rounded to 1 decimal digit" means for the exact
  number.
\<close>

definition nearest_tenths :: "rat \<Rightarrow> int" where
  "nearest_tenths q = \<lfloor>q * 10 + 1 / 2\<rfloor>"

lemma round64_abs_err:
  assumes "0 \<le> z" and "round64 s z = Finite t y"
  shows "\<bar>y - z\<bar> \<le> ulp z / 2"
proof (cases "z = 0")
  case True
  with assms(2) have "y = 0" by simp
  with True show ?thesis using ulp_pos [of 0] by simp
next
  case False
  define q where "q = ulp z"
  have q0: "0 < q" by (simp add: q_def ulp_pos)
  have y: "y = of_int (round_even (z / q)) * q"
    using assms(2) False by (simp add: round64_def Let_def q_def split: if_splits)
  have "y - z = (of_int (round_even (z / q)) - z / q) * q"
    using q0 by (simp add: y left_diff_distrib)
  then have "\<bar>y - z\<bar> = \<bar>of_int (round_even (z / q)) - z / q\<bar> * \<bar>q\<bar>"
    by (simp only: abs_mult)
  then have "\<bar>y - z\<bar> = \<bar>of_int (round_even (z / q)) - z / q\<bar> * q"
    using q0 by simp
  also have "\<dots> \<le> 1 / 2 * q"
    using round_even_err [of "z / q"] q0 by (intro mult_right_mono) simp_all
  finally show ?thesis by (simp add: q_def)
qed

lemma round_tenth_near:
  assumes x0: "0 \<le> x" and x: "x * 10 \<le> 2 ^ 51 - 1"
  shows "\<exists>k. fdiv (math_Round (fmul (Finite s x) (Finite False 10))) (Finite False 10)
            = round64 s (of_int k / 10) \<and> 0 \<le> k \<and>
          \<bar>of_int k - x * 10\<bar> \<le> 1 / 2 + ulp (x * 10) / 2"
proof -
  have big: "rat_of_int (2 ^ 51 - 1) * 2 powi 0 < overflow_threshold"
    by (simp add: overflow_threshold_def)
  have x10: "0 \<le> x * 10" using x0 by simp
  have le: "x * 10 \<le> rat_of_int (2 ^ 51 - 1) * 2 powi 0" using x by simp
  obtain a where a: "round64 s (x * 10) = Finite s a" "0 \<le> a"
    using round64_le [OF x10 le _ _ big, of s] by auto
  define k where "k = \<lfloor>a + 1 / 2\<rfloor>"
  have k0: "0 \<le> k" using a(2) by (simp add: k_def)
  have "of_int k \<le> a + 1 / 2" and "a + 1 / 2 < of_int k + 1"
    unfolding k_def by linarith+
  then have ka: "\<bar>of_int k - a\<bar> \<le> 1 / 2" by linarith
  have "\<bar>a - x * 10\<bar> \<le> ulp (x * 10) / 2" using x10 a(1) by (rule round64_abs_err)
  with ka have "\<bar>of_int k - x * 10\<bar> \<le> 1 / 2 + ulp (x * 10) / 2" by linarith
  moreover have "fdiv (math_Round (fmul (Finite s x) (Finite False 10))) (Finite False 10)
      = round64 s (of_int k / 10)"
    by (simp add: a k_def)
  ultimately show ?thesis using k0 by blast
qed

text \<open>
  C8, amended. For every \<open>EncodeProgress\<close> value, in both packages: when \<open>Percent == 0\<close>
  (either zero), \<open>EstimatedMB()\<close> returns exactly 0 whatever \<open>CurrentSize\<close> is. Otherwise,
  when the \<open>float64\<close> quotient \<open>EncodedMB() / (Percent / 100)\<close> is a finite \<open>x\<close> with
  \<open>10 * \<bar>x\<bar> \<le> 2 ^ 51 - 1\<close>, the result is the \<open>float64\<close> nearest to \<open>k / 10\<close> for a whole
  number \<open>k\<close> of tenths that lies within a half, plus the rounding error of the product
  \<open>10 * x\<close> (half a unit in its last place), of \<open>10 * x\<close>; it has the sign of the quotient.
\<close>

theorem EstimatedMB_zero_or_near_tenth:
  "(feq (Percent e) (Finite False 0) \<longrightarrow>
      handbrake_EstimatedMB e = Finite False 0 \<and> ffmpeg_EstimatedMB e = Finite False 0) \<and>
   (\<not> feq (Percent e) (Finite False 0) \<and>
    fdiv (EncodedMB e) (fdiv (Percent e) (Finite False 100)) = Finite s x \<and>
    0 \<le> x \<and> x * 10 \<le> 2 ^ 51 - 1 \<longrightarrow>
      (\<exists>k. handbrake_EstimatedMB e = round64 s (of_int k / 10) \<and>
           ffmpeg_EstimatedMB e = round64 s (of_int k / 10) \<and> 0 \<le> k \<and>
           \<bar>of_int k - x * 10\<bar> \<le> 1 / 2 + ulp (x * 10) / 2))"
proof (intro conjI impI)
  assume z: "feq (Percent e) (Finite False 0)"
  show "handbrake_EstimatedMB e = Finite False 0"
    unfolding handbrake_EstimatedMB_def using z by (simp only: if_True)
  show "ffmpeg_EstimatedMB e = Finite False 0"
    unfolding ffmpeg_EstimatedMB_def using z by (simp only: if_True)
next
  assume h: "\<not> feq (Percent e) (Finite False 0) \<and>
    fdiv (EncodedMB e) (fdiv (Percent e) (Finite False 100)) = Finite s x \<and>
    0 \<le> x \<and> x * 10 \<le> 2 ^ 51 - 1"
  then have nz: "\<not> feq (Percent e) (Finite False 0)"
    and mb: "fdiv (EncodedMB e) (fdiv (Percent e) (Finite False 100)) = Finite s x"
    and x0: "0 \<le> x" and x: "x * 10 \<le> 2 ^ 51 - 1" by simp_all
  have hb: "handbrake_EstimatedMB e
      = fdiv (math_Round (fmul (Finite s x) (Finite False 10))) (Finite False 10)"
    using nz by (simp add: handbrake_EstimatedMB_def Let_def mb handbrake_round_def math_Pow10_1
        del: fdiv.simps fmul.simps math_Round.simps)
  have ff: "ffmpeg_EstimatedMB e
      = fdiv (math_Round (fmul (Finite s x) (Finite False 10))) (Finite False 10)"
    using nz by (simp add: ffmpeg_EstimatedMB_def Let_def mb ffmpeg_round_def math_Pow10_1
        del: fdiv.simps fmul.simps math_Round.simps)
  from round_tenth_near [OF x0 x, of s] show
    "\<exists>k. handbrake_EstimatedMB e = round64 s (of_int k / 10) \<and>
         ffmpeg_EstimatedMB e = round64 s (of_int k / 10) \<and> 0 \<le> k \<and>
         \<bar>of_int k - x * 10\<bar> \<le> 1 / 2 + ulp (x * 10) / 2"
    unfolding hb ff by blast
qed

lemma round_even_half:
  assumes "x = of_int f + 1 / 2"
  shows "round_even x = (if even f then f else f + 1)"
proof -
  have "\<lfloor>x\<rfloor> = f" unfolding assms by (rule floor_unique) simp_all
  then show ?thesis by (simp add: round_even_def Let_def assms)
qed

lemma round64_tieI:
  assumes "2 powi k \<le> x" and "x < 2 powi (k + 1)" and "E = max (- 1074) (k - 52)"
    and "x / 2 powi E = of_int f + 1 / 2" and "m = (if even f then f else f + 1)"
    and "of_int m * 2 powi E < overflow_threshold"
  shows "round64 s x = Finite s (of_int m * 2 powi E)"
proof -
  have x: "0 < x" using powi2_pos assms(1) by (rule less_le_trans)
  have "ilog2 x = k" using assms(1,2) by (rule ilog2_unique)
  then have u: "ulp x = 2 powi E" by (simp add: ulp_def assms(3))
  have "round_even (x / 2 powi E) = m" using round_even_half [OF assms(4)] assms(5) by simp
  then show ?thesis using x u assms(6) by (simp add: round64_def Let_def)
qed

lemma EstimatedMB_9999:
  "fdiv (EncodedMB \<lparr>Percent = Finite False (7036170730324623 / 70368744177664),
        FPSAvg = Finite False 0, ETA = 0, CurrentSize = 1759104489955\<rparr>)
     (fdiv (Finite False (7036170730324623 / 70368744177664)) (Finite False 100))
     = Finite False (1801503148028723 / 1073741824)"
proof -
  have enc: "round64 False (1759104489955 / 1048576) = Finite False (1759104489955 / 1048576)"
    by (rule trans [OF round64_eqI [where k = 20 and E = "- 32" and m = 7205291990855680]])
      (simp_all add: overflow_threshold_def powi_neg_numeral)
  have p100: "round64 False (7036170730324623 / 7036874417766400) = Finite False (9006298534815517 / 9007199254740992)"
    by (rule trans [OF round64_eqI [where k = "- 1" and E = "- 53" and m = 9006298534815517]])
      (simp_all add: overflow_threshold_def powi_neg_numeral)
  have mb: "round64 False (15110592509206971023360 / 9006298534815517) = Finite False (1801503148028723 / 1073741824)"
    by (rule trans [OF round64_eqI [where k = 20 and E = "- 32" and m = 7206012592114892]])
      (simp_all add: overflow_threshold_def powi_neg_numeral)
  show ?thesis
    by (simp add: EncodedMB_def of_int64_def round64_numeral enc p100 mb)
qed

lemma round_tenth_9999:
  "fdiv (math_Round (fmul (Finite False (1801503148028723 / 1073741824)) (Finite False 10)))
     (Finite False 10) = Finite False (3603006403431629 / 2147483648)"
proof -
  have a: "round64 False (9007515740143615 / 536870912) = Finite False (33555611 / 2)"
    by (rule trans [OF round64_tieI [where k = 24 and E = "- 28" and f = 4503757870071807
            and m = 4503757870071808]])
      (simp_all add: overflow_threshold_def powi_neg_numeral)
  have r: "math_Round (Finite False (33555611 / 2)) = Finite False 16777806"
    by (rule trans [OF math_Round_eqI [where k = 16777806]]) simp_all
  have y: "round64 False (8388903 / 5) = Finite False (3603006403431629 / 2147483648)"
    by (rule trans [OF round64_eqI [where k = 20 and E = "- 32" and m = 7206012806863258]])
      (simp_all add: overflow_threshold_def powi_neg_numeral)
  show ?thesis
    by (simp add: a r y del: math_Round.simps)
qed

lemma nearest_tenths_9999: "nearest_tenths (1801503148028723 / 1073741824) = 16777805"
  unfolding nearest_tenths_def by (rule floor_unique) simp_all

lemma round64_16777805: "round64 False (of_int 16777805 / 10) = Finite False (3355561 / 2)"
  by (rule trans [OF round64_eqI [where k = 20 and E = "- 32" and m = 7206012377366528]])
    (simp_all add: overflow_threshold_def powi_neg_numeral)

text \<open>
  C8 (as stated: otherwise \<open>EstimatedMB()\<close> equals \<open>EncodedMB() / (Percent / 100)\<close> rounded
  to 1 decimal digit) fails. At \<open>Percent = 99.99\<close> (the \<open>float64\<close>
  \<open>7036170730324623 / 2 ^ 46\<close>) and \<open>CurrentSize = 1759104489955\<close> the quotient computed is
  1677780.5499999998, whose nearest one-decimal value is 1677780.5 (16777805 tenths).
  The code multiplies by 10, which rounds to 16777805.5 exactly, \<open>math.Round\<close> takes that
  to 16777806, and both packages return 1677780.6.
\<close>

theorem EstimatedMB_not_nearest_tenth:
  "fdiv (EncodedMB \<lparr>Percent = Finite False (7036170730324623 / 70368744177664),
        FPSAvg = Finite False 0, ETA = 0, CurrentSize = 1759104489955\<rparr>)
     (fdiv (Finite False (7036170730324623 / 70368744177664)) (Finite False 100))
     = Finite False (1801503148028723 / 1073741824) \<and>
   round64 False (of_int (nearest_tenths (1801503148028723 / 1073741824)) / 10)
     = Finite False (3355561 / 2) \<and>
   handbrake_EstimatedMB \<lparr>Percent = Finite False (7036170730324623 / 70368744177664),
        FPSAvg = Finite False 0, ETA = 0, CurrentSize = 1759104489955\<rparr>
     = Finite False (3603006403431629 / 2147483648) \<and>
   ffmpeg_EstimatedMB \<lparr>Percent = Finite False (7036170730324623 / 70368744177664),
        FPSAvg = Finite False 0, ETA = 0, CurrentSize = 1759104489955\<rparr>
     = Finite False (3603006403431629 / 2147483648) \<and>
   Finite False (3603006403431629 / 2147483648) \<noteq> Finite False (3355561 / 2)"
proof (intro conjI)
  show "fdiv (EncodedMB \<lparr>Percent = Finite False (7036170730324623 / 70368744177664),
        FPSAvg = Finite False 0, ETA = 0, CurrentSize = 1759104489955\<rparr>)
     (fdiv (Finite False (7036170730324623 / 70368744177664)) (Finite False 100))
     = Finite False (1801503148028723 / 1073741824)"
    by (rule EstimatedMB_9999)
  show "round64 False (of_int (nearest_tenths (1801503148028723 / 1073741824)) / 10)
     = Finite False (3355561 / 2)"
    by (simp only: nearest_tenths_9999 round64_16777805)
  show "handbrake_EstimatedMB \<lparr>Percent = Finite False (7036170730324623 / 70368744177664),
        FPSAvg = Finite False 0, ETA = 0, CurrentSize = 1759104489955\<rparr>
     = Finite False (3603006403431629 / 2147483648)"
    unfolding handbrake_EstimatedMB_def handbrake_round_def Let_def math_Pow10_1
    by (simp add: EstimatedMB_9999 round_tenth_9999 signed_def
        del: fdiv.simps fmul.simps math_Round.simps)
  show "ffmpeg_EstimatedMB \<lparr>Percent = Finite False (7036170730324623 / 70368744177664),
        FPSAvg = Finite False 0, ETA = 0, CurrentSize = 1759104489955\<rparr>
     = Finite False (3603006403431629 / 2147483648)"
    unfolding ffmpeg_EstimatedMB_def ffmpeg_round_def Let_def math_Pow10_1
    by (simp add: EstimatedMB_9999 round_tenth_9999 signed_def
        del: fdiv.simps fmul.simps math_Round.simps)
  show "Finite False (3603006403431629 / 2147483648) \<noteq> Finite False (3355561 / 2)"
    by simp
qed

text \<open>
  At \<open>Percent = -0\<close> with 123456789 bytes both return 0; at 25 percent with 50 MiB
  written the quotient is 200 and both return the \<open>float64\<close> nearest to a whole number
  of tenths within a half (and half a unit in the last place) of 2000.
\<close>

theorem EstimatedMB_zero_or_near_tenth_witness:
  "handbrake_EstimatedMB \<lparr>Percent = Finite True 0, FPSAvg = Finite False 0, ETA = 0, CurrentSize = 123456789\<rparr>
     = Finite False 0 \<and>
   ffmpeg_EstimatedMB \<lparr>Percent = Finite True 0, FPSAvg = Finite False 0, ETA = 0, CurrentSize = 123456789\<rparr>
     = Finite False 0 \<and>
   (\<exists>k. handbrake_EstimatedMB \<lparr>Percent = Finite False 25, FPSAvg = Finite False 0, ETA = 0, CurrentSize = 52428800\<rparr>
          = round64 False (of_int k / 10) \<and>
        ffmpeg_EstimatedMB \<lparr>Percent = Finite False 25, FPSAvg = Finite False 0, ETA = 0, CurrentSize = 52428800\<rparr>
          = round64 False (of_int k / 10) \<and> 0 \<le> k \<and>
        \<bar>of_int k - 200 * 10\<bar> \<le> 1 / 2 + ulp (200 * 10) / 2)"
  using EstimatedMB_zero_or_near_tenth
      [of "\<lparr>Percent = Finite True 0, FPSAvg = Finite False 0, ETA = 0, CurrentSize = 123456789\<rparr>"]
    EstimatedMB_zero_or_near_tenth
      [of "\<lparr>Percent = Finite False 25, FPSAvg = Finite False 0, ETA = 0, CurrentSize = 52428800\<rparr>"
        False 200]
  by (simp add: signed_def EncodedMB_50 round64_quarter round64_numeral)

subsection \<open>Rounding twice\<close>

lemma ilog2_powi [simp]: "ilog2 (2 powi k) = k"
  by (rule ilog2_unique) (simp_all add: power_int_strict_increasing)

lemma round64_rel_err:
  assumes x: "2 powi (- 1022) \<le> x" and r: "round64 s x = Finite t y"
  shows "\<bar>y - x\<bar> \<le> x / 2 ^ 53"
proof -
  have x0: "0 < x" using powi2_pos x by (rule less_le_trans)
  have "ilog2 (2 powi (- 1022)) \<le> ilog2 x" using powi2_pos x by (rule ilog2_mono)
  then have "- 1022 \<le> ilog2 x" by (simp only: ilog2_powi)
  then have E: "max (- 1074) (ilog2 x - 52) = ilog2 x - 52" by simp
  define q where "q = ulp x"
  have q0: "0 < q" by (simp add: q_def ulp_pos)
  have "q = 2 powi (ilog2 x - 52)" by (simp add: q_def ulp_def E)
  also have "\<dots> = 2 powi ilog2 x / 2 ^ 52" by (simp add: power_int_diff)
  also have "\<dots> \<le> x / 2 ^ 52"
    using ilog2_bounds(1) [OF x0] by (simp add: divide_right_mono)
  finally have q: "q \<le> x / 2 ^ 52" .
  have y: "y = of_int (round_even (x / q)) * q"
    using r x0 by (simp add: round64_def Let_def q_def split: if_splits)
  have "y - x = (of_int (round_even (x / q)) - x / q) * q"
    using q0 by (simp add: y left_diff_distrib)
  then have "\<bar>y - x\<bar> = \<bar>of_int (round_even (x / q)) - x / q\<bar> * \<bar>q\<bar>"
    by (simp only: abs_mult)
  then have "\<bar>y - x\<bar> = \<bar>of_int (round_even (x / q)) - x / q\<bar> * q"
    using q0 by simp
  also have "\<dots> \<le> 1 / 2 * q"
    using round_even_err [of "x / q"] q0 by (intro mult_right_mono) simp_all
  also have "\<dots> \<le> 1 / 2 * (x / 2 ^ 52)"
    using q by simp
  finally show ?thesis by simp
qed

lemma five_pow_le: "n \<le> 22 \<Longrightarrow> (5::int) ^ n < 2 ^ 53"
proof -
  assume "n \<le> 22"
  then have "(5::int) ^ n \<le> 5 ^ 22" by (intro power_increasing) simp_all
  also have "\<dots> < 2 ^ 53" by simp
  finally show ?thesis .
qed

lemma ten_pow_le: "n \<le> 22 \<Longrightarrow> (10::rat) ^ n \<le> 10 ^ 22"
  by (intro power_increasing) simp_all

lemma math_Pow10_exact:
  assumes "0 \<le> N" and "N \<le> 22"
  shows "math_Pow10 N = Finite False (10 ^ nat N)"
proof -
  define n where "n = nat N"
  have N: "N = int n" and n: "n \<le> 22" using assms by (simp_all add: n_def)
  have e: "(10::rat) ^ n = of_int (5 ^ n) * 2 powi (int n)"
    by (simp add: power_mult_distrib [symmetric])
  have "(10::rat) ^ n < overflow_threshold"
    using ten_pow_le [OF n] by (simp add: overflow_threshold_def)
  then have "round64 False (10 ^ n) = Finite False (10 ^ n)"
    using five_pow_le [OF n] by (intro round64_exactI [OF e]) simp_all
  then show ?thesis by (simp add: math_Pow10_def N n_def [symmetric])
qed

text \<open>
  The common body of the two helpers for a precision whose power of ten \<open>P\<close> is exact:
  scale, round to an integer, scale back.
\<close>

definition round_core :: "float64 \<Rightarrow> rat \<Rightarrow> float64" where
  "round_core v P = fdiv (math_Round (fmul v (Finite False P))) (Finite False P)"

lemma round_core_idem:
  assumes P1: "1 \<le> P" and P2: "P \<le> 10 ^ 22" and x0: "0 \<le> x" and xP: "x * P \<le> 2 ^ 51 - 1"
  shows "round_core (round_core (Finite s x) P) P = round_core (Finite s x) P"
proof -
  have P0: "0 < P" using P1 by simp
  have t: "(2::rat) ^ 51 - 1 = of_int (2 ^ 51 - 1) * 2 powi 0" by simp
  have big: "(2::rat) ^ 51 - 1 < overflow_threshold" by (simp add: overflow_threshold_def)
  obtain a where a: "round64 s (x * P) = Finite s a" "0 \<le> a" "a \<le> 2 ^ 51 - 1"
    using round64_le [of "x * P" "2 ^ 51 - 1" 0 s] x0 P0 xP big by auto
  define k where "k = \<lfloor>a + 1 / 2\<rfloor>"
  have k0: "0 \<le> k" using a(2) by (simp add: k_def)
  have "a + 1 / 2 < of_int (2 ^ 51)" using a(3) by simp
  then have "k < 2 ^ 51" unfolding k_def by (simp only: floor_less_iff)
  then have k1: "k \<le> 2 ^ 51 - 1" by simp
  have step1: "math_Round (fmul (Finite s x) (Finite False P)) = Finite s (of_int k)"
    by (simp add: a k_def)
  have kP: "of_int k / P \<le> of_int (2 ^ 51 - 1) * 2 powi 0"
  proof -
    have "of_int k / P \<le> of_int k / 1" using P1 k0 by (intro divide_left_mono) simp_all
    also have "\<dots> \<le> of_int (2 ^ 51 - 1)" using k1 by (simp only: div_by_1 of_int_le_iff)
    finally show ?thesis by simp
  qed
  obtain y where y: "round64 s (of_int k / P) = Finite s y" "0 \<le> y"
    using round64_le [of "of_int k / P" "2 ^ 51 - 1" 0 s] k0 P0 kP big by auto
  have r: "round_core (Finite s x) P = Finite s y"
    using P0 by (simp add: round_core_def step1 y del: math_Round.simps fmul.simps)
  have step2: "math_Round (fmul (Finite s y) (Finite False P)) = Finite s (of_int k)"
  proof (cases "k = 0")
    case True
    then have "y = 0" using y(1) by simp
    then show ?thesis using True math_Round_small [of 0 s] by simp
  next
    case False
    with k0 have kpos: "1 \<le> k" by simp
    have "(2::rat) powi (- 1022) \<le> 1 / 10 ^ 22"
      by (simp add: powi_neg_numeral)
    also have "\<dots> \<le> 1 / P" using P2 P0 by (intro divide_left_mono) simp_all
    also have "\<dots> \<le> of_int k / P" using kpos P0 by (intro divide_right_mono) simp_all
    finally have "\<bar>y - of_int k / P\<bar> \<le> of_int k / P / 2 ^ 53"
      using y(1) by (rule round64_rel_err)
    then have "\<bar>y - of_int k / P\<bar> * P \<le> of_int k / P / 2 ^ 53 * P"
      using P0 by (intro mult_right_mono) simp_all
    moreover have "(y - of_int k / P) * P = y * P - of_int k"
      using P0 by (simp add: left_diff_distrib)
    then have "\<bar>y - of_int k / P\<bar> * \<bar>P\<bar> = \<bar>y * P - of_int k\<bar>"
      by (simp only: abs_mult [symmetric])
    then have "\<bar>y - of_int k / P\<bar> * P = \<bar>y * P - of_int k\<bar>"
      using P0 by simp
    moreover have "of_int k / P / 2 ^ 53 * P = of_int k / 2 ^ 53"
      using P0 by simp
    ultimately have "\<bar>y * P - of_int k\<bar> \<le> of_int k / 2 ^ 53"
      by simp
    also have "\<dots> \<le> of_int (2 ^ 51 - 1) / 2 ^ 53"
      using k1 by (intro divide_right_mono) (simp_all only: of_int_le_iff, simp)
    also have "\<dots> \<le> 1 / 4" by simp
    finally have err: "\<bar>y * P - of_int k\<bar> \<le> 1 / 4" .
    from err have e1: "y * P \<le> of_int k + 1 / 4" and e2: "of_int k - 1 / 4 \<le> y * P"
      by linarith+
    have up: "y * P \<le> of_int (4 * k + 1) * 2 powi (- 2)"
      using e1 by (simp add: powi_neg_numeral add_divide_distrib)
    have lo: "of_int (4 * k - 1) * 2 powi (- 2) \<le> y * P"
      using e2 by (simp add: powi_neg_numeral diff_divide_distrib)
    have m1: "4 * k + 1 < 2 ^ 53" and m2: "4 * k - 1 < 2 ^ 53" and m3: "0 < 4 * k - 1"
      using k1 kpos by simp_all
    have "rat_of_int (4 * k + 1) \<le> rat_of_int (2 ^ 53)" using m1 by (simp only: of_int_le_iff)
    then have big2: "of_int (4 * k + 1) * 2 powi (- 2) < overflow_threshold"
      by (simp add: overflow_threshold_def powi_neg_numeral)
    have yP0: "0 \<le> y * P" using y(2) P0 by simp
    obtain b where b: "round64 s (y * P) = Finite s b" "b \<le> of_int (4 * k + 1) * 2 powi (- 2)"
      using round64_le [OF yP0 up m1 _ big2, of s] by auto
    have "of_int (4 * k - 1) * 2 powi (- 2) \<le> b"
      using round64_ge [OF lo m3 m2, of s] b(1) by auto
    then have "of_int k \<le> b + 1 / 2" and "b + 1 / 2 < of_int k + 1"
      using b(2) by (simp_all add: powi_neg_numeral add_divide_distrib diff_divide_distrib)
    then have "math_Round (Finite s b) = Finite s (of_int k)"
      by (rule math_Round_eqI)
    then show ?thesis by (simp add: b(1) del: math_Round.simps)
  qed
  show ?thesis
    unfolding r unfolding round_core_def step2
    using P0 y(1) by simp
qed

lemma handbrake_round_core:
  "0 \<le> N \<Longrightarrow> N \<le> 22 \<Longrightarrow> handbrake_round v N = round_core v (10 ^ nat N)"
  by (simp add: handbrake_round_def round_core_def math_Pow10_exact Let_def)

lemma ffmpeg_round_core:
  "0 \<le> N \<Longrightarrow> N \<le> 22 \<Longrightarrow> ffmpeg_round v N = round_core v (10 ^ nat N)"
  by (simp add: ffmpeg_round_def round_core_def math_Pow10_exact Let_def)

lemma round_core_100_first:
  "round_core (Finite False (281507458182251 / 8)) 100 = Finite False (4504119330916017 / 128)"
proof -
  have a: "round64 False (7037686454556275 / 2) = Finite False (7037686454556275 / 2)"
    by (rule round64_exactI [where m = 7037686454556275 and e = "- 1"])
      (simp_all add: overflow_threshold_def powi_neg_numeral)
  have a': "math_Round (Finite False (7037686454556275 / 2)) = Finite False 3518843227278138"
    by (rule trans [OF math_Round_eqI [where k = 3518843227278138]]) simp_all
  have b: "round64 False (1759421613639069 / 50) = Finite False (4504119330916017 / 128)"
    by (rule trans [OF round64_eqI [where k = 45 and E = "- 7" and m = 4504119330916017]])
      (simp_all add: overflow_threshold_def powi_neg_numeral)
  show ?thesis
    by (simp add: round_core_def a a' b del: math_Round.simps)
qed

lemma round_core_100_second:
  "round_core (Finite False (4504119330916017 / 128)) 100 = Finite False (2252059665458009 / 64)"
proof -
  have c: "round64 False (112602983272900425 / 32) = Finite False (7037686454556277 / 2)"
    by (rule trans [OF round64_eqI [where k = 51 and E = "- 1" and m = 7037686454556277]])
      (simp_all add: overflow_threshold_def powi_neg_numeral)
  have c': "math_Round (Finite False (7037686454556277 / 2)) = Finite False 3518843227278139"
    by (rule trans [OF math_Round_eqI [where k = 3518843227278139]]) simp_all
  have d: "round64 False (3518843227278139 / 100) = Finite False (2252059665458009 / 64)"
    by (rule trans [OF round64_eqI [where k = 45 and E = "- 7" and m = 4504119330916018]])
      (simp_all add: overflow_threshold_def powi_neg_numeral)
  show ?thesis
    by (simp add: round_core_def c c' d del: math_Round.simps)
qed

text \<open>
  C9 (as stated: rounding a rounded value again changes nothing, for every \<open>float64\<close>
  and every precision) fails in both packages. The value 35188432272781.375
  (\<open>281507458182251 / 8\<close>) rounds at precision 2 to 35188432272781.38, the \<open>float64\<close>
  \<open>4504119330916017 / 128\<close>; multiplied by 100 that is rounded to 3518843227278138.5, so
  the second call returns 35188432272781.39, the next \<open>float64\<close> up.
\<close>

theorem round_twice_differs:
  "ffmpeg_round (ffmpeg_round (Finite False (281507458182251 / 8)) 2) 2
     \<noteq> ffmpeg_round (Finite False (281507458182251 / 8)) 2 \<and>
   handbrake_round (handbrake_round (Finite False (281507458182251 / 8)) 2) 2
     \<noteq> handbrake_round (Finite False (281507458182251 / 8)) 2"
proof -
  have "ffmpeg_round v 2 = round_core v 100" and "handbrake_round v 2 = round_core v 100" for v
    using ffmpeg_round_core [of 2 v] handbrake_round_core [of 2 v] by simp_all
  then show ?thesis
    by (simp add: round_core_100_first round_core_100_second)
qed

text \<open>
  C9, amended: for a precision \<open>0 \<le> N \<le> 22\<close> (the powers of ten that are exact) and a
  finite value \<open>v\<close> with \<open>\<bar>v\<bar> * 10 ^ N \<le> 2 ^ 51 - 1\<close> (about \<open>2.25 * 10 ^ 15\<close>), rounding
  the rounded value again returns it unchanged, in both packages.
\<close>

theorem round_idempotent_below_2_51:
  assumes "0 \<le> N" and "N \<le> 22" and "0 \<le> x" and "x * 10 ^ nat N \<le> 2 ^ 51 - 1"
  shows "handbrake_round (handbrake_round (Finite s x) N) N = handbrake_round (Finite s x) N \<and>
    ffmpeg_round (ffmpeg_round (Finite s x) N) N = ffmpeg_round (Finite s x) N"
proof -
  have P1: "(1::rat) \<le> 10 ^ nat N" by simp
  have P2: "(10::rat) ^ nat N \<le> 10 ^ 22" using assms(1,2) by (intro ten_pow_le) simp
  have "round_core (round_core (Finite s x) (10 ^ nat N)) (10 ^ nat N)
      = round_core (Finite s x) (10 ^ nat N)"
    using P1 P2 assms(3,4) by (rule round_core_idem)
  then show ?thesis
    using assms(1,2) by (simp add: handbrake_round_core ffmpeg_round_core)
qed

theorem round_idempotent_below_2_51_witness:
  "handbrake_round (handbrake_round (Finite True (5 / 4)) 2) 2 = handbrake_round (Finite True (5 / 4)) 2 \<and>
   ffmpeg_round (ffmpeg_round (Finite True (5 / 4)) 2) 2 = ffmpeg_round (Finite True (5 / 4)) 2"
  using round_idempotent_below_2_51 [of 2 "5 / 4" True] by simp

end
